theory Spec2Isabelle
  imports Complex_Main "HOL-Library.Log_Nat"
begin

section \<open>Text primitives\<close>

text \<open>
  A Python \<open>str\<close> is modelled as a \<open>string\<close> whose characters are the code points
  below 256. On that range \<open>str.strip()\<close> and the pattern class \<open>\s\<close> remove and match
  the same characters: tab, line feed, vertical tab, form feed, carriage return, the
  separators 0x1C to 0x1F, space, 0x85 and 0xA0; \<open>\d\<close> matches the ten ASCII digits; and
  \<open>.\<close> matches every character but the line feed.
\<close>

definition is_space :: "char \<Rightarrow> bool" where
  "is_space c = (c \<in> set [CHR 0x09, CHR 0x0A, CHR 0x0B, CHR 0x0C, CHR 0x0D,
                          CHR 0x1C, CHR 0x1D, CHR 0x1E, CHR 0x1F, CHR 0x20,
                          CHR 0x85, CHR 0xA0])"

definition is_digit :: "char \<Rightarrow> bool" where
  "is_digit c = (c \<in> set ''0123456789'')"

definition is_numch :: "char \<Rightarrow> bool" where
  \<comment> \<open>the character class \<open>[\d.]\<close>\<close>
  "is_numch c = (is_digit c \<or> c = CHR ''.'')"

definition not_nl :: "char \<Rightarrow> bool" where
  \<comment> \<open>the pattern \<open>.\<close> (no DOTALL flag)\<close>
  "not_nl c = (c \<noteq> CHR 0x0A)"

definition strip :: "string \<Rightarrow> string" where
  "strip s = dropWhile is_space (rev (dropWhile is_space (rev s)))"

section \<open>The two patterns of \<open>parse_expense\<close>, as a backtracking matcher\<close>

text \<open>
  A quantified character class applied to a string offers the ways to split the string
  into what the class consumes and what is left, in the order in which a backtracking
  matcher tries them: a greedy quantifier tries the longest run first, a lazy one the
  shortest. A pattern is the nesting of its parts in that order, and the match the
  engine reports is the first of the list.
\<close>

definition run :: "(char \<Rightarrow> bool) \<Rightarrow> string \<Rightarrow> nat" where
  "run P s = length (takeWhile P s)"

definition splits_at :: "nat list \<Rightarrow> string \<Rightarrow> (string \<times> string) list" where
  "splits_at ks s = map (\<lambda>k. (take k s, drop k s)) ks"

definition lazy_plus :: "(char \<Rightarrow> bool) \<Rightarrow> string \<Rightarrow> (string \<times> string) list" where
  "lazy_plus P s = splits_at [1 ..< Suc (run P s)] s"

definition greedy_plus :: "(char \<Rightarrow> bool) \<Rightarrow> string \<Rightarrow> (string \<times> string) list" where
  "greedy_plus P s = splits_at (rev [1 ..< Suc (run P s)]) s"

definition greedy_star :: "(char \<Rightarrow> bool) \<Rightarrow> string \<Rightarrow> (string \<times> string) list" where
  "greedy_star P s = splits_at (rev [0 ..< Suc (run P s)]) s"

definition at_dollar :: "string \<Rightarrow> bool" where
  \<comment> \<open>\<open>$\<close> without MULTILINE: at the end, or before a line feed that ends the string\<close>
  "at_dollar r = (r = [] \<or> r = [CHR 0x0A])"

definition tail_matches :: "string \<Rightarrow> string list" where
  \<comment> \<open>\<open>\s+([\d.]+)\s*$\<close> from the current position; yields group 2\<close>
  "tail_matches r =
     [g2. (w, r2) \<leftarrow> greedy_plus is_space r,
          (g2, r3) \<leftarrow> greedy_plus is_numch r2,
          (w', r4) \<leftarrow> greedy_star is_space r3,
          at_dollar r4]"

definition match_trailing :: "string \<Rightarrow> (string \<times> string) list" where
  \<comment> \<open>\<open>(.+?)\s+([\d.]+)\s*$\<close> starting at the head of the string\<close>
  "match_trailing s = [(g1, g2). (g1, r1) \<leftarrow> lazy_plus not_nl s, g2 \<leftarrow> tail_matches r1]"

fun search_trailing :: "string \<Rightarrow> (string \<times> string) option" where
  \<comment> \<open>\<open>re.search\<close>: the first start position, from the left, that has a match\<close>
  "search_trailing s =
     (case match_trailing s of
        m # ms \<Rightarrow> Some m
      | [] \<Rightarrow> (case s of [] \<Rightarrow> None | c # cs \<Rightarrow> search_trailing cs))"

definition match_leading :: "string \<Rightarrow> (string \<times> string) list" where
  \<comment> \<open>\<open>^([\d.]+)\s+(.+)\<close>; \<open>^\<close> holds at the start of the string only\<close>
  "match_leading s =
     [(g1, g2). (g1, r1) \<leftarrow> greedy_plus is_numch s,
                (w, r2) \<leftarrow> greedy_plus is_space r1,
                (g2, r3) \<leftarrow> greedy_plus not_nl r2]"

definition search_leading :: "string \<Rightarrow> (string \<times> string) option" where
  "search_leading s = (case match_leading s of m # ms \<Rightarrow> Some m | [] \<Rightarrow> None)"

section \<open>Floating-point amounts\<close>

text \<open>
  A Python \<open>float\<close> is an IEEE 754 binary64 value. A finite one is modelled by the
  rational it denotes (the sign of zero is not kept), and the result of an operation is
  the exact result rounded to the nearest representable value, ties to the even
  significand, overflowing to an infinity.
\<close>

datatype py_float = Finite rat | PosInf | NegInf | NaN

definition ilog2 :: "rat \<Rightarrow> int" where
  \<comment> \<open>for \<open>0 < q\<close>: the \<open>e\<close> with \<open>2 ^ e \<le> q < 2 ^ (e + 1)\<close>\<close>
  "ilog2 q = (if 1 \<le> q then int (floorlog 2 (nat \<lfloor>q\<rfloor>)) - 1
              else - int (floorlog 2 (nat (\<lceil>1 / q\<rceil> - 1))))"

definition round_half_even :: "rat \<Rightarrow> int" where
  "round_half_even q =
     (let f = \<lfloor>q\<rfloor>; d = q - of_int f
      in if d < 1 / 2 then f else if 1 / 2 < d then f + 1
         else if even f then f else f + 1)"

definition round64 :: "rat \<Rightarrow> py_float" where
  "round64 q =
     (if q = 0 then Finite 0
      else let x = max (ilog2 \<bar>q\<bar> - 52) (- 1074);
               r = of_int (round_half_even (q / 2 powi x)) * 2 powi x
           in if 2 ^ 1024 \<le> r then PosInf
              else if r \<le> - (2 ^ 1024) then NegInf
              else Finite r)"

fun fadd :: "py_float \<Rightarrow> py_float \<Rightarrow> py_float" where
  "fadd (Finite a) (Finite b) = round64 (a + b)"
| "fadd NaN y = NaN"
| "fadd x NaN = NaN"
| "fadd PosInf NegInf = NaN"
| "fadd NegInf PosInf = NaN"
| "fadd PosInf y = PosInf"
| "fadd x PosInf = PosInf"
| "fadd NegInf y = NegInf"
| "fadd x NegInf = NegInf"

definition is_true :: "py_float \<Rightarrow> bool" where
  \<comment> \<open>truth value of a float: false for zero only\<close>
  "is_true a = (a \<noteq> Finite 0)"

datatype py_error = ValueError | TypeError | KeyError | APIError

definition digit_val :: "char \<Rightarrow> nat" where
  "digit_val c = of_char c - 48"

definition dec_nat :: "string \<Rightarrow> nat" where
  "dec_nat ds = foldl (\<lambda>a c. 10 * a + digit_val c) 0 ds"

definition decimal_token :: "string \<Rightarrow> bool" where
  \<comment> \<open>digits with an optional single decimal point, and at least one digit\<close>
  "decimal_token tok = (list_all is_numch tok \<and> list_ex is_digit tok \<and>
                        length (filter (\<lambda>c. c = CHR ''.'') tok) \<le> 1)"

definition decimal_value :: "string \<Rightarrow> rat" where
  \<comment> \<open>the number such a token denotes: its digits read in base ten, scaled by the
      number of digits after the point\<close>
  "decimal_value tok =
     (let ip = takeWhile is_digit tok; fp = drop 1 (dropWhile is_digit tok)
      in of_nat (dec_nat (ip @ fp)) / 10 ^ length fp)"

definition float_token :: "string \<Rightarrow> py_error + py_float" where
  \<comment> \<open>\<open>float(tok)\<close> for a string of ASCII digits and dots, which is all that group
      \<open>([\d.]+)\<close> can hold: a decimal token converts, correctly rounded; the other
      strings of digits and dots raise ValueError\<close>
  "float_token tok =
     (if decimal_token tok then Inr (round64 (decimal_value tok)) else Inl ValueError)"

section \<open>\<open>parse_expense\<close>\<close>

text \<open>
  The function returns the pair \<open>(description, amount)\<close>, or \<open>(None, None)\<close> when neither
  pattern matches; \<open>float\<close> is called outside any handler, so its ValueError leaves the
  function. The model returns \<open>Inr (Some (description, amount))\<close>, \<open>Inr None\<close> and
  \<open>Inl ValueError\<close> for the three outcomes.
\<close>

definition parse_expense :: "string \<Rightarrow> py_error + (string \<times> py_float) option" where
  "parse_expense text =
     (case search_trailing (strip text) of
        Some (g1, g2) \<Rightarrow>
          (case float_token g2 of
             Inl e \<Rightarrow> Inl e
           | Inr amount \<Rightarrow> Inr (Some (strip g1, amount)))
      | None \<Rightarrow>
          (case search_leading (strip text) of
             Some (g1, g2) \<Rightarrow>
               (case float_token g1 of
                  Inl e \<Rightarrow> Inl e
                | Inr amount \<Rightarrow> Inr (Some (strip g2, amount)))
           | None \<Rightarrow> Inr None))"

definition understood :: "(string \<times> py_float) option \<Rightarrow> bool" where
  \<comment> \<open>the webhook's test \<open>if description and amount\<close> on what \<open>parse_expense\<close> returned\<close>
  "understood r = (case r of None \<Rightarrow> False | Some (description, amount) \<Rightarrow> description \<noteq> [] \<and> is_true amount)"

section \<open>Whitespace-separated tokens\<close>

fun tokens_acc :: "string \<Rightarrow> string \<Rightarrow> string list" where
  \<comment> \<open>the maximal runs of non-whitespace characters, as \<open>str.split()\<close> yields them;
      the first argument is the token being read, reversed\<close>
  "tokens_acc cur [] = (if cur = [] then [] else [rev cur])"
| "tokens_acc cur (c # cs) =
     (if is_space c then (if cur = [] then tokens_acc [] cs else rev cur # tokens_acc [] cs)
      else tokens_acc (c # cur) cs)"

definition tokens :: "string \<Rightarrow> string list" where
  "tokens s = tokens_acc [] s"

definition numeric_token :: "string \<Rightarrow> bool" where
  \<comment> \<open>a token that the pattern's group \<open>[\d.]+\<close> covers whole\<close>
  "numeric_token t = list_all is_numch t"

section \<open>\<open>categorize_expense\<close>\<close>

text \<open>
  The collaborator is the call \<open>model.generate_content(prompt)\<close> followed by the read of
  \<open>response.text\<close>: given the prompt it raises or yields a text.
\<close>

definition prompt :: "string \<Rightarrow> string" where
  "prompt description =
     ''Categorize this expense into ONE word category: '' @ [CHR 0x22] @ description @ [CHR 0x22] @
     [CHR 0x0A, CHR 0x0A] @
     ''Common categories: Food, Transport, Shopping, Entertainment, Bills, Health, Education, Groceries, Other'' @
     [CHR 0x0A, CHR 0x0A] @
     ''Respond with ONLY the category name, nothing else.''"

definition categorize_expense :: "(string \<Rightarrow> py_error + string) \<Rightarrow> string \<Rightarrow> string" where
  "categorize_expense generate description =
     (case generate (prompt description) of
        Inr text \<Rightarrow> strip text
      | Inl e \<Rightarrow> ''Other'')"

definition reply_with :: "string \<Rightarrow> string \<Rightarrow> py_error + string" where
  \<comment> \<open>a collaborator that answers every prompt with the same text\<close>
  "reply_with reply p = Inr reply"

definition unavailable :: "string \<Rightarrow> py_error + string" where
  \<comment> \<open>a collaborator whose call raises\<close>
  "unavailable p = Inl APIError"

section \<open>\<open>get_summary\<close>\<close>

text \<open>
  A row of the ledger carries the three fields the summary reads. A calendar date is
  modelled by its day number (the proleptic Gregorian ordinal), so that the difference
  of two dates in days is the difference of the numbers. The two library conversions of
  a field, \<open>datetime.strptime(_, '%Y-%m-%d').date()\<close> and \<open>float(_)\<close>, are parameters:
  each raises or yields a value. The ledger read is the outcome of
  \<open>get_or_create_sheet()\<close>, which raises, yields no worksheet, or yields a worksheet
  whose \<open>get_all_records()\<close> raises or yields the rows.
\<close>

record row =
  Date :: string
  Amount :: string
  Category :: string

type_synonym date = int

fun filter_period ::
  "(string \<Rightarrow> py_error + date) \<Rightarrow> date \<Rightarrow> string \<Rightarrow> row list \<Rightarrow> row list \<Rightarrow> row list" where
  \<comment> \<open>the first loop; a row whose date raises is passed over by the bare \<open>except\<close>\<close>
  "filter_period strptime today period filtered [] = filtered"
| "filter_period strptime today period filtered (r # records) =
     filter_period strptime today period
       (case strptime (Date r) of
          Inl e \<Rightarrow> filtered
        | Inr record_date \<Rightarrow>
            if period = ''today'' \<and> record_date = today then filtered @ [r]
            else if period = ''week'' \<and> today - record_date \<le> 7 then filtered @ [r]
            else if period = ''month'' \<and> today - record_date \<le> 30 then filtered @ [r]
            else filtered)
       records"

fun add_amount :: "(string \<times> py_float) list \<Rightarrow> string \<Rightarrow> py_float \<Rightarrow> (string \<times> py_float) list" where
  \<comment> \<open>the dictionary update, keys kept in insertion order\<close>
  "add_amount [] category amount = [(category, amount)]"
| "add_amount ((k, v) # kvs) category amount =
     (if k = category then (k, fadd v amount) # kvs
      else (k, v) # add_amount kvs category amount)"

fun totals ::
  "(string \<Rightarrow> py_error + py_float) \<Rightarrow> (string \<times> py_float) list \<times> py_float \<Rightarrow> row list \<Rightarrow>
   (string \<times> py_float) list \<times> py_float" where
  \<comment> \<open>the second loop; a row whose amount raises is passed over by the bare \<open>except\<close>\<close>
  "totals to_float (category_totals, total') [] = (category_totals, total')"
| "totals to_float (category_totals, total') (r # filtered) =
     (case to_float (Amount r) of
        Inl e \<Rightarrow> totals to_float (category_totals, total') filtered
      | Inr amount \<Rightarrow>
          totals to_float (add_amount category_totals (Category r) amount, fadd total' amount) filtered)"

definition get_summary ::
  "(string \<Rightarrow> py_error + date) \<Rightarrow> (string \<Rightarrow> py_error + py_float) \<Rightarrow>
   py_error + (py_error + row list) option \<Rightarrow> date \<Rightarrow> string \<Rightarrow>
   (string \<times> py_float) list \<times> py_float" where
  "get_summary strptime to_float sheet today period =
     (case sheet of
        Inl e \<Rightarrow> ([], Finite 0)
      | Inr None \<Rightarrow> ([], Finite 0)
      | Inr (Some worksheet) \<Rightarrow>
          (case worksheet of
             Inl e \<Rightarrow> ([], Finite 0)
           | Inr records \<Rightarrow>
               totals to_float ([], Finite 0) (filter_period strptime today period [] records)))"


definition keep_rule :: "string \<Rightarrow> date \<Rightarrow> date \<Rightarrow> bool" where
  \<comment> \<open>the window rule in the words of the specification, the periods being the three
      command words\<close>
  "keep_rule period today d =
     (period = ''today'' \<and> d = today \<or>
      period = ''week'' \<and> today - d \<le> 7 \<or>
      period = ''month'' \<and> today - d \<le> 30)"

section \<open>The date conversion\<close>

text \<open>
  \<open>datetime.strptime(s, '%Y-%m-%d').date()\<close>: the library matches the pattern
  \<open>(\d\d\d\d)-(1[0-2]|0[1-9]|[1-9])-(3[0-1]|[1-2]\d|0[1-9]|[1-9]| [1-9])\<close> at the start
  of the field, raises ValueError when nothing matches, when characters remain after the
  match or when the day does not exist in that month and year, and otherwise yields the
  date, here its ordinal (day 1 is 0001-01-01).
\<close>

definition digit_in :: "string \<Rightarrow> string \<Rightarrow> (int \<times> string) list" where
  \<comment> \<open>one character of the given class, read as a digit\<close>
  "digit_in cls s = (case s of c # cs \<Rightarrow> if c \<in> set cls then [(int (digit_val c), cs)] else [] | [] \<Rightarrow> [])"

definition lit :: "char \<Rightarrow> string \<Rightarrow> string list" where
  "lit c s = (case s of c' # cs \<Rightarrow> if c' = c then [cs] else [] | [] \<Rightarrow> [])"

definition year_alts :: "string \<Rightarrow> (int \<times> string) list" where
  "year_alts s =
     [(1000 * a + 100 * b + 10 * c + d, r4).
        (a, r1) \<leftarrow> digit_in ''0123456789'' s, (b, r2) \<leftarrow> digit_in ''0123456789'' r1,
        (c, r3) \<leftarrow> digit_in ''0123456789'' r2, (d, r4) \<leftarrow> digit_in ''0123456789'' r3]"

definition month_alts :: "string \<Rightarrow> (int \<times> string) list" where
  "month_alts s =
     [(10 * a + b, r2). (a, r1) \<leftarrow> digit_in ''1'' s, (b, r2) \<leftarrow> digit_in ''012'' r1] @
     [(b, r2). (a, r1) \<leftarrow> digit_in ''0'' s, (b, r2) \<leftarrow> digit_in ''123456789'' r1] @
     digit_in ''123456789'' s"

definition day_alts :: "string \<Rightarrow> (int \<times> string) list" where
  "day_alts s =
     [(10 * a + b, r2). (a, r1) \<leftarrow> digit_in ''3'' s, (b, r2) \<leftarrow> digit_in ''01'' r1] @
     [(10 * a + b, r2). (a, r1) \<leftarrow> digit_in ''12'' s, (b, r2) \<leftarrow> digit_in ''0123456789'' r1] @
     [(b, r2). (a, r1) \<leftarrow> digit_in ''0'' s, (b, r2) \<leftarrow> digit_in ''123456789'' r1] @
     digit_in ''123456789'' s @
     [(b, r2). r1 \<leftarrow> lit CHR '' '' s, (b, r2) \<leftarrow> digit_in ''123456789'' r1]"

definition is_leap :: "int \<Rightarrow> bool" where
  "is_leap y = (y mod 4 = 0 \<and> (y mod 100 \<noteq> 0 \<or> y mod 400 = 0))"

definition days_in_month :: "int \<Rightarrow> int \<Rightarrow> int" where
  "days_in_month y m =
     (if m = 2 then (if is_leap y then 29 else 28)
      else if m \<in> {4, 6, 9, 11} then 30 else 31)"

definition days_before_month :: "int \<Rightarrow> int \<Rightarrow> int" where
  "days_before_month y m = sum_list (map (days_in_month y) [1 .. m - 1])"

definition days_before_year :: "int \<Rightarrow> int" where
  "days_before_year y = (y - 1) * 365 + (y - 1) div 4 - (y - 1) div 100 + (y - 1) div 400"

definition toordinal :: "int \<Rightarrow> int \<Rightarrow> int \<Rightarrow> date" where
  "toordinal y m d = days_before_year y + days_before_month y m + d"

definition strptime_ymd :: "string \<Rightarrow> py_error + date" where
  "strptime_ymd s =
     (case [(y, m, d, r5). (y, r1) \<leftarrow> year_alts s, r2 \<leftarrow> lit CHR ''-'' r1,
                           (m, r3) \<leftarrow> month_alts r2, r4 \<leftarrow> lit CHR ''-'' r3,
                           (d, r5) \<leftarrow> day_alts r4] of
        [] \<Rightarrow> Inl ValueError
      | (y, m, d, r5) # others \<Rightarrow>
          if r5 \<noteq> [] then Inl ValueError
          else if y < 1 \<or> days_in_month y m < d then Inl ValueError
          else Inr (toordinal y m d))"

section \<open>Facts about the matcher\<close>

lemma numch_not_space: "is_numch c \<Longrightarrow> \<not> is_space c"
  by (auto simp: is_numch_def is_space_def is_digit_def)

lemma not_space_not_nl: "\<not> is_space c \<Longrightarrow> not_nl c"
  by (auto simp: not_nl_def is_space_def)

lemma run_le_length: "run P s \<le> length s"
  by (simp add: run_def length_takeWhile_le)

lemma take_run_all:
  assumes "k \<le> run P s" and "c \<in> set (take k s)"
  shows "P c"
proof -
  have "take k s = take k (takeWhile P s @ dropWhile P s)" by simp
  also have "\<dots> = take k (takeWhile P s)" using assms(1) by (simp add: run_def del: takeWhile_dropWhile_id)
  finally have "c \<in> set (takeWhile P s)" using assms(2) by (metis in_set_takeD)
  then show ?thesis by (rule set_takeWhileD[THEN conjunct2])
qed

lemma run_append_all:
  assumes "\<forall>c\<in>set w. P c" and "r = [] \<or> \<not> P (hd r)"
  shows "run P (w @ r) = length w"
proof -
  have "takeWhile P (w @ r) = w @ takeWhile P r" using assms(1) by simp
  moreover have "takeWhile P r = []" using assms(2) by (simp add: takeWhile_eq_Nil_iff)
  ultimately show ?thesis by (simp add: run_def)
qed

lemma in_splits_at: "(a, b) \<in> set (splits_at ks s) \<longleftrightarrow> (\<exists>k\<in>set ks. a = take k s \<and> b = drop k s)"
  unfolding splits_at_def by (simp add: image_iff)

lemma greedy_plus_shape:
  assumes "(a, b) \<in> set (greedy_plus P s)"
  shows "s = a @ b \<and> a \<noteq> [] \<and> (\<forall>c\<in>set a. P c)"
proof -
  from assms obtain k where k: "1 \<le> k" "k \<le> run P s" "a = take k s" "b = drop k s"
    by (auto simp: greedy_plus_def splits_at_def)
  have "k \<le> length s" using k(2) run_le_length[of P s] by simp
  then have "a \<noteq> []" using k by auto
  then show ?thesis using k take_run_all[of k P s] by auto
qed

lemma lazy_plus_shape:
  assumes "(a, b) \<in> set (lazy_plus P s)"
  shows "s = a @ b \<and> a \<noteq> [] \<and> (\<forall>c\<in>set a. P c)"
proof -
  from assms obtain k where k: "1 \<le> k" "k \<le> run P s" "a = take k s" "b = drop k s"
    by (auto simp: lazy_plus_def splits_at_def)
  have "k \<le> length s" using k(2) run_le_length[of P s] by simp
  then have "a \<noteq> []" using k by auto
  then show ?thesis using k take_run_all[of k P s] by auto
qed

lemma greedy_star_shape:
  assumes "(a, b) \<in> set (greedy_star P s)"
  shows "s = a @ b \<and> (\<forall>c\<in>set a. P c)"
proof -
  from assms obtain k where "k \<in> set (rev [0 ..< Suc (run P s)])" and ab: "a = take k s" "b = drop k s"
    unfolding greedy_star_def in_splits_at by blast
  then have k: "k \<le> run P s" "a = take k s" "b = drop k s" by auto
  then show ?thesis using take_run_all[of k P s] by auto
qed

lemma greedy_plus_first:
  assumes "w \<noteq> []" and "\<forall>c\<in>set w. P c" and "r = [] \<or> \<not> P (hd r)"
  shows "greedy_plus P (w @ r) = (w, r) # splits_at (rev [1 ..< length w]) (w @ r)"
proof -
  have n: "run P (w @ r) = length w" using assms by (simp add: run_append_all)
  have "0 < length w" using assms(1) by simp
  then have "rev [1 ..< Suc (length w)] = length w # rev [1 ..< length w]" by (simp add: Suc_leI)
  then show ?thesis by (simp add: greedy_plus_def n splits_at_def)
qed

lemma greedy_star_Nil: "greedy_star P [] = [([], [])]"
  by (simp add: greedy_star_def run_def splits_at_def)

lemma tail_matches_shape:
  assumes "g \<in> set (tail_matches r)"
  shows "\<exists>w w'. r = w @ g @ w' \<and> w \<noteq> [] \<and> (\<forall>c\<in>set w. is_space c) \<and> g \<noteq> [] \<and>
           (\<forall>c\<in>set g. is_numch c) \<and> (\<forall>c\<in>set w'. is_space c)"
proof -
  from assms obtain w r2 r3 w' r4 where
    a: "(w, r2) \<in> set (greedy_plus is_space r)" and
    b: "(g, r3) \<in> set (greedy_plus is_numch r2)" and
    c: "(w', r4) \<in> set (greedy_star is_space r3)" and
    d: "at_dollar r4"
    by (auto simp: tail_matches_def split: if_splits)
  have "\<forall>c\<in>set r4. is_space c" using d by (auto simp: at_dollar_def is_space_def)
  then have "\<forall>c\<in>set (w' @ r4). is_space c" using greedy_star_shape[OF c] by auto
  moreover have "r = w @ g @ (w' @ r4)"
    using greedy_plus_shape[OF a] greedy_plus_shape[OF b] greedy_star_shape[OF c] by simp
  ultimately show ?thesis
    using greedy_plus_shape[OF a] greedy_plus_shape[OF b] by blast
qed

lemma tail_matches_first:
  assumes "w \<noteq> []" "\<forall>c\<in>set w. is_space c" "g \<noteq> []" "\<forall>c\<in>set g. is_numch c"
  shows "\<exists>ms. tail_matches (w @ g) = g # ms"
proof -
  have hg: "\<not> is_space (hd g)" using assms(3,4) numch_not_space by (cases g) auto
  have 1: "greedy_plus is_space (w @ g) = (w, g) # splits_at (rev [1 ..< length w]) (w @ g)"
    using greedy_plus_first[of w is_space g] assms(1,2) hg by simp
  have 2: "greedy_plus is_numch g = (g, []) # splits_at (rev [1 ..< length g]) g"
    using greedy_plus_first[of g is_numch "[]"] assms(3,4) by simp
  show ?thesis
    by (simp add: tail_matches_def 1 2 greedy_star_Nil at_dollar_def)
qed

lemma match_trailing_shape:
  assumes "(g1, g2) \<in> set (match_trailing s)"
  shows "\<exists>w w'. s = g1 @ w @ g2 @ w' \<and> g1 \<noteq> [] \<and> (\<forall>c\<in>set g1. not_nl c) \<and>
           w \<noteq> [] \<and> (\<forall>c\<in>set w. is_space c) \<and> g2 \<noteq> [] \<and>
           (\<forall>c\<in>set g2. is_numch c) \<and> (\<forall>c\<in>set w'. is_space c)"
proof -
  from assms obtain r1 where a: "(g1, r1) \<in> set (lazy_plus not_nl s)" and b: "g2 \<in> set (tail_matches r1)"
    by (auto simp: match_trailing_def)
  from tail_matches_shape[OF b] lazy_plus_shape[OF a] show ?thesis by auto
qed


lemma dropWhile_all_append: "\<forall>c\<in>set a. P c \<Longrightarrow> dropWhile P (a @ b) = dropWhile P b"
  by (induction a) auto

lemma takeWhile_all_append: "\<forall>c\<in>set a. P c \<Longrightarrow> takeWhile P (a @ b) = a @ takeWhile P b"
  by (induction a) auto

lemma canon_before:
  assumes "w \<noteq> []" "\<forall>c\<in>set w. is_space c" "g \<noteq> []" "\<forall>c\<in>set g. is_numch c"
    "\<forall>c\<in>set w'. is_space c"
  shows "dropWhile is_numch (dropWhile is_space (rev (x @ w @ g @ w'))) = rev w @ rev x"
    and "takeWhile is_numch (dropWhile is_space (rev (x @ w @ g @ w'))) = rev g"
proof -
  have hg: "\<not> is_space (hd (rev g))" using assms(3,4) numch_not_space
    by (metis hd_rev last_in_set)
  have hw: "\<not> is_numch (hd (rev w))" using assms(1,2) numch_not_space
    by (metis hd_rev last_in_set)
  have 1: "dropWhile is_space (rev (x @ w @ g @ w')) = dropWhile is_space (rev g @ rev w @ rev x)"
    using assms(5) dropWhile_all_append[of "rev w'" is_space] by simp
  have 2: "dropWhile is_space (rev g @ rev w @ rev x) = rev g @ rev w @ rev x"
    using hg assms(3) by (cases "rev g") auto
  have 3: "dropWhile is_numch (rev g @ rev w @ rev x) = dropWhile is_numch (rev w @ rev x)"
    using assms(4) dropWhile_all_append[of "rev g" is_numch] by simp
  have 4: "dropWhile is_numch (rev w @ rev x) = rev w @ rev x"
    using hw assms(1) by (cases "rev w") auto
  have 5: "takeWhile is_numch (rev g @ rev w @ rev x) = rev g @ takeWhile is_numch (rev w @ rev x)"
    using assms(4) takeWhile_all_append[of "rev g" is_numch] by simp
  have 6: "takeWhile is_numch (rev w @ rev x) = []"
    using hw assms(1) by (cases "rev w") auto
  show "dropWhile is_numch (dropWhile is_space (rev (x @ w @ g @ w'))) = rev w @ rev x"
    by (simp only: 1 2 3 4)
  show "takeWhile is_numch (dropWhile is_space (rev (x @ w @ g @ w'))) = rev g"
    by (simp only: 1 2 5 6 append_Nil2)
qed

lemma shape_unique:
  assumes "x @ w @ g @ w' = y @ v @ h @ v'"
    and "w \<noteq> []" "\<forall>c\<in>set w. is_space c" "g \<noteq> []" "\<forall>c\<in>set g. is_numch c" "\<forall>c\<in>set w'. is_space c"
    and "v \<noteq> []" "\<forall>c\<in>set v. is_space c" "h \<noteq> []" "\<forall>c\<in>set h. is_numch c" "\<forall>c\<in>set v'. is_space c"
  shows "g = h \<and> x @ w = y @ v"
proof -
  have "rev g = rev h"
    using canon_before(2)[OF assms(2-6), of x] canon_before(2)[OF assms(7-11), of y] assms(1) by simp
  moreover have "rev w @ rev x = rev v @ rev y"
    using canon_before(1)[OF assms(2-6), of x] canon_before(1)[OF assms(7-11), of y] assms(1) by simp
  ultimately show ?thesis by (metis rev_append rev_rev_ident)
qed

lemma tail_matches_none:
  assumes "x \<noteq> []" "\<not> is_space (last x)"
    and "w \<noteq> []" "\<forall>c\<in>set w. is_space c" "g \<noteq> []" "\<forall>c\<in>set g. is_numch c"
  shows "tail_matches (x @ w @ g) = []"
proof (rule ccontr)
  assume "tail_matches (x @ w @ g) \<noteq> []"
  then obtain h where "h \<in> set (tail_matches (x @ w @ g))" by (meson last_in_set)
  from tail_matches_shape[OF this] obtain v v' where
    v: "x @ w @ g = v @ h @ v'" "v \<noteq> []" "\<forall>c\<in>set v. is_space c" "h \<noteq> []"
       "\<forall>c\<in>set h. is_numch c" "\<forall>c\<in>set v'. is_space c" by blast
  have "x @ w @ g @ [] = [] @ v @ h @ v'" using v(1) by simp
  from shape_unique[OF this assms(3-6) _ v(2-6)] have "x @ w = v" by simp
  then have "last x \<in> set v" using assms(1) by auto
  then show False using v(3) assms(2) by blast
qed

declare search_trailing.simps [simp del]

lemma concat_map_skip:
  assumes "\<forall>x\<in>set xs. f x = []"
  shows "concat (map f (xs @ ys)) = concat (map f ys)"
  using assms by (induction xs) auto

lemma match_trailing_first:
  assumes "p \<noteq> []" "\<forall>c\<in>set p. not_nl c" "\<not> is_space (last p)"
    and "w \<noteq> []" "\<forall>c\<in>set w. is_space c" "g \<noteq> []" "\<forall>c\<in>set g. is_numch c"
  shows "\<exists>ms. match_trailing (p @ w @ g) = (p, g) # ms"
proof -
  let ?s = "p @ w @ g"
  let ?F = "\<lambda>(g1, r1). map (\<lambda>g2. (g1, g2)) (tail_matches r1)"
  have mt: "match_trailing ?s = concat (map ?F (lazy_plus not_nl ?s))"
    by (simp add: match_trailing_def split_def)
  have "takeWhile not_nl ?s = p @ takeWhile not_nl (w @ g)"
    using assms(2) by (rule takeWhile_all_append)
  then have n: "length p \<le> run not_nl ?s" unfolding run_def by simp
  have lp: "1 \<le> length p" using assms(1) by (simp add: Suc_leI)
  have "[1 ..< Suc (run not_nl ?s)] = [1 ..< length p] @ [length p ..< Suc (run not_nl ?s)]"
    using n lp upt_add_eq_append[of 1 "length p" "Suc (run not_nl ?s) - length p"] by simp
  also have "[length p ..< Suc (run not_nl ?s)] = length p # [Suc (length p) ..< Suc (run not_nl ?s)]"
    using n by (simp add: upt_conv_Cons)
  finally have ks: "[1 ..< Suc (run not_nl ?s)] =
      [1 ..< length p] @ length p # [Suc (length p) ..< Suc (run not_nl ?s)]" .
  have skip: "\<forall>x\<in>set (splits_at [1 ..< length p] ?s). ?F x = []"
  proof
    fix x assume "x \<in> set (splits_at [1 ..< length p] ?s)"
    then obtain k where k: "1 \<le> k" "k < length p" "x = (take k ?s, drop k ?s)"
      by (auto simp: splits_at_def)
    have "drop k ?s = drop k p @ w @ g" using k(2) by simp
    moreover have "drop k p \<noteq> []" "last (drop k p) = last p" using k(2) by auto
    ultimately have "tail_matches (drop k ?s) = []"
      using tail_matches_none[of "drop k p" w g] assms by simp
    then show "?F x = []" using k(3) by simp
  qed
  obtain ts where ts: "tail_matches (w @ g) = g # ts"
    using tail_matches_first[OF assms(4-7)] by blast
  have "lazy_plus not_nl ?s = splits_at [1 ..< length p] ?s @
          (p, w @ g) # splits_at [Suc (length p) ..< Suc (run not_nl ?s)] ?s"
    unfolding lazy_plus_def ks by (simp add: splits_at_def)
  then have "match_trailing ?s = concat (map ?F ((p, w @ g) # splits_at [Suc (length p) ..< Suc (run not_nl ?s)] ?s))"
    unfolding mt using concat_map_skip[OF skip] by simp
  then show ?thesis by (simp add: ts)
qed

lemma search_trailing_first: "match_trailing s = m # ms \<Longrightarrow> search_trailing s = Some m"
  by (subst search_trailing.simps) simp

lemma search_trailing_shape:
  "search_trailing s = Some m \<Longrightarrow> \<exists>pre t. s = pre @ t \<and> m \<in> set (match_trailing t)"
proof (induction s)
  case Nil
  then show ?case by (subst (asm) search_trailing.simps) (auto split: list.splits)
next
  case (Cons c cs)
  show ?case
  proof (cases "match_trailing (c # cs)")
    case Nil
    then have "search_trailing cs = Some m"
      using Cons.prems by (subst (asm) search_trailing.simps) simp
    from Cons.IH[OF this] obtain pre t where "cs = pre @ t" "m \<in> set (match_trailing t)" by blast
    then have "c # cs = (c # pre) @ t \<and> m \<in> set (match_trailing t)" by simp
    then show ?thesis by blast
  next
    case (Cons m' ms)
    then have "m' = m" using Cons.prems by (subst (asm) search_trailing.simps) simp
    then have "c # cs = [] @ (c # cs) \<and> m \<in> set (match_trailing (c # cs))" using Cons by simp
    then show ?thesis by blast
  qed
qed

lemma search_trailing_exists:
  "match_trailing t \<noteq> [] \<Longrightarrow> search_trailing (pre @ t) \<noteq> None"
proof (induction pre)
  case Nil
  then show ?case by (subst search_trailing.simps) (auto split: list.splits)
next
  case (Cons c pre)
  then show ?case by (subst search_trailing.simps) (auto split: list.splits)
qed

lemma search_trailing_none:
  "(\<forall>c\<in>set s. \<not> is_space c) \<Longrightarrow> search_trailing s = None"
proof (rule ccontr)
  assume a: "\<forall>c\<in>set s. \<not> is_space c" and "search_trailing s \<noteq> None"
  then obtain m where "search_trailing s = Some m" by auto
  from search_trailing_shape[OF this] obtain pre t where t: "s = pre @ t" "m \<in> set (match_trailing t)" by blast
  obtain g1 g2 where "m = (g1, g2)" by (cases m)
  with t(2) match_trailing_shape[of g1 g2 t] obtain w w' where "t = g1 @ w @ g2 @ w'" "w \<noteq> []" "\<forall>c\<in>set w. is_space c"
    by blast
  then have "hd w \<in> set s" "is_space (hd w)" using t(1) by auto
  then show False using a by blast
qed

section \<open>Facts about rounding\<close>

lemma nat_less_pow_rat: "n < 2 ^ k \<Longrightarrow> (of_nat n :: rat) + 1 \<le> 2 ^ k"
proof -
  assume "n < 2 ^ k"
  then have "Suc n \<le> 2 ^ k" by simp
  then have "(of_nat (Suc n) :: rat) \<le> of_nat (2 ^ k)" by (rule of_nat_mono)
  then show ?thesis by (simp add: add.commute)
qed

lemma nat_pow_le_rat: "2 ^ k \<le> n \<Longrightarrow> (2::rat) ^ k \<le> of_nat n"
proof -
  assume "2 ^ k \<le> n"
  then have "(of_nat (2 ^ k) :: rat) \<le> of_nat n" by (rule of_nat_mono)
  then show ?thesis by simp
qed

lemma ilog2_bounds:
  assumes "0 < q"
  shows "2 powi (ilog2 q) \<le> q" and "q < 2 powi (ilog2 q + 1)"
proof -
  have "2 powi (ilog2 q) \<le> q \<and> q < 2 powi (ilog2 q + 1)"
  proof (cases "1 \<le> q")
    case True
    define n where "n = nat \<lfloor>q\<rfloor>"
    define k where "k = floorlog 2 n"
    have n1: "1 \<le> n" using True by (simp add: n_def le_nat_iff le_floor_iff)
    then have n0: "0 < n" by simp
    have k1: "1 \<le> k" unfolding k_def using n0 by (simp add: floorlog_def)
    have b: "2 ^ (k - 1) \<le> n" "n < 2 ^ k"
      using floorlog_bounds[of n 2] n0 unfolding k_def by auto
    have e: "ilog2 q = int (k - 1)" using True k1 by (simp add: ilog2_def n_def k_def of_nat_diff)
    have nq: "of_nat n \<le> q" "q < of_nat n + 1"
      using True unfolding n_def by (simp_all add: of_nat_nat) linarith
    have "(2::rat) ^ (k - 1) \<le> of_nat n" using b(1) by (rule nat_pow_le_rat)
    then have "(2::rat) ^ (k - 1) \<le> q" using nq(1) by (rule order_trans)
    then have 1: "2 powi (ilog2 q) \<le> q" unfolding e by simp
    have "of_nat n + 1 \<le> (2::rat) ^ k" using b(2) by (rule nat_less_pow_rat)
    with nq(2) have "q < (2::rat) ^ k" by (rule less_le_trans)
    moreover have "ilog2 q + 1 = int k" using e k1 by simp
    ultimately have 2: "q < 2 powi (ilog2 q + 1)" by simp
    show ?thesis using 1 2 by simp
  next
    case False
    then have q1: "q < 1" by simp
    define c where "c = \<lceil>1 / q\<rceil>"
    define m where "m = nat (c - 1)"
    define k where "k = floorlog 2 m"
    have "1 < 1 / q" using assms q1 by simp
    then have c2: "2 \<le> c" unfolding c_def by (simp add: le_ceiling_iff)
    then have m0: "0 < m" unfolding m_def by simp
    have k1: "1 \<le> k" unfolding k_def using m0 by (simp add: floorlog_def)
    have b: "2 ^ (k - 1) \<le> m" "m < 2 ^ k"
      using floorlog_bounds[of m 2] m0 unfolding k_def by auto
    have e: "ilog2 q = - int k" using False by (simp add: ilog2_def c_def m_def k_def)
    have mc: "of_nat m = (of_int c :: rat) - 1" using c2 unfolding m_def by (simp add: of_nat_nat)
    have cq: "1 / q \<le> of_int c" "of_int c - 1 < 1 / q"
      unfolding c_def by (simp_all add: le_of_int_ceiling) linarith
    have "of_nat m + 1 \<le> (2::rat) ^ k" using b(2) by (rule nat_less_pow_rat)
    then have "of_int c \<le> (2::rat) ^ k" using mc by simp
    with cq(1) have "1 / q \<le> 2 ^ k" by (rule order_trans)
    then have "1 / 2 ^ k \<le> q" using assms by (simp add: field_simps)
    then have 1: "2 powi (ilog2 q) \<le> q" unfolding e by (simp add: power_int_minus field_simps)
    have "(2::rat) ^ (k - 1) \<le> of_nat m" using b(1) by (rule nat_pow_le_rat)
    then have "(2::rat) ^ (k - 1) \<le> of_int c - 1" using mc by simp
    then have "2 ^ (k - 1) < 1 / q" using cq(2) by (rule le_less_trans)
    then have "q < 1 / 2 ^ (k - 1)" using assms by (simp add: field_simps)
    moreover have "ilog2 q + 1 = - int (k - 1)" using e k1 by simp
    ultimately have 2: "q < 2 powi (ilog2 q + 1)" by (simp add: power_int_minus field_simps)
    show ?thesis using 1 2 by simp
  qed
  then show "2 powi (ilog2 q) \<le> q" and "q < 2 powi (ilog2 q + 1)" by simp_all
qed



lemma powi_less_exp:
  assumes "(2::rat) powi a < 2 powi b"
  shows "a < b"
proof (rule ccontr)
  assume "\<not> a < b"
  then have "(2::rat) powi b \<le> 2 powi a" by (intro power_int_increasing) auto
  then show False using assms by simp
qed

lemma round_half_even_of_int: "round_half_even (of_int m) = m"
  by (simp add: round_half_even_def)


lemma round64_exact:
  assumes "q = of_int m * 2 powi x" "\<bar>m\<bar> < 2 ^ 53" "- 1074 \<le> x" "x \<le> 971"
  shows "round64 q = Finite q"
proof (cases "q = 0")
  case True
  then show ?thesis by (simp add: round64_def)
next
  case False
  define e where "e = ilog2 \<bar>q\<bar>"
  define x' where "x' = max (e - 52) (- 1074)"
  have qpos: "0 < \<bar>q\<bar>" using False by simp
  have "\<bar>q\<bar> = of_int \<bar>m\<bar> * 2 powi x" unfolding assms(1) by (simp add: abs_mult)
  also have "\<dots> < 2 ^ 53 * 2 powi x"
  proof -
    have "(of_int \<bar>m\<bar> :: rat) < of_int (2 ^ 53)" using assms(2) by (simp only: of_int_less_iff)
    then have "(of_int \<bar>m\<bar> :: rat) < 2 ^ 53" by simp
    then show ?thesis by (simp add: mult_strict_right_mono)
  qed
  also have "\<dots> = 2 powi (x + 53)" by (simp add: power_int_add)
  finally have ub: "\<bar>q\<bar> < 2 powi (x + 53)" .
  have "(2::rat) powi e < 2 powi (x + 53)"
    using ilog2_bounds(1)[OF qpos] ub unfolding e_def by (rule le_less_trans)
  then have "e < x + 53" by (rule powi_less_exp)
  then have le: "x' \<le> x" unfolding x'_def using assms(3) by simp
  define d where "d = nat (x - x')"
  have xd: "x = x' + int d" unfolding d_def using le by simp
  have "q / 2 powi x' = of_int m * 2 powi (int d)"
    unfolding assms(1) xd by (simp add: power_int_add)
  also have "\<dots> = of_int (m * 2 ^ d)" by simp
  finally have "round_half_even (q / 2 powi x') = m * 2 ^ d" by (simp only: round_half_even_of_int)
  then have r: "of_int (round_half_even (q / 2 powi x')) * 2 powi x' = q"
    unfolding assms(1) xd by (simp add: power_int_add)
  have "(2::rat) powi (x + 53) \<le> 2 powi 1024" using assms(4) by (intro power_int_increasing) auto
  then have "\<bar>q\<bar> < 2 ^ 1024" using ub by simp
  then have "\<not> 2 ^ 1024 \<le> q" "\<not> q \<le> - (2 ^ 1024)" by linarith+
  then show ?thesis using False r unfolding round64_def e_def[symmetric] x'_def[symmetric]
    by (simp add: Let_def)
qed

lemma round64_int: "\<bar>m\<bar> < 2 ^ 53 \<Longrightarrow> round64 (of_int m) = Finite (of_int m)"
  using round64_exact[of "of_int m" m 0] by simp



section \<open>Facts about trimming, the leading pattern and tokens\<close>

lemma strip_decomp:
  "\<exists>l r. s = l @ strip s @ r \<and> (\<forall>c\<in>set l. is_space c) \<and> (\<forall>c\<in>set r. is_space c)"
proof -
  define u where "u = rev (dropWhile is_space (rev s))"
  define r where "r = rev (takeWhile is_space (rev s))"
  define l where "l = takeWhile is_space u"
  have "rev s = takeWhile is_space (rev s) @ dropWhile is_space (rev s)" by simp
  then have "rev (rev s) = rev (takeWhile is_space (rev s) @ dropWhile is_space (rev s))" by simp
  then have 1: "s = u @ r" unfolding u_def r_def by (simp only: rev_append rev_rev_ident)
  have 2: "u = l @ strip s" unfolding l_def strip_def u_def by simp
  have "\<forall>c\<in>set r. is_space c" unfolding r_def using set_takeWhileD by fastforce
  moreover have "\<forall>c\<in>set l. is_space c" unfolding l_def using set_takeWhileD by fastforce
  ultimately show ?thesis using 1 2 by auto
qed

lemma strip_ends:
  assumes "strip s \<noteq> []"
  shows "\<not> is_space (hd (strip s))" and "\<not> is_space (last (strip s))"
proof -
  define u where "u = rev (dropWhile is_space (rev s))"
  have st: "strip s = dropWhile is_space u" unfolding strip_def u_def by simp
  show "\<not> is_space (hd (strip s))" using assms unfolding st by (rule hd_dropWhile)
  have un: "u \<noteq> []" using assms unfolding st by auto
  then have "dropWhile is_space (rev s) \<noteq> []" unfolding u_def by simp
  then have "\<not> is_space (hd (dropWhile is_space (rev s)))" by (rule hd_dropWhile)
  then have lu: "\<not> is_space (last u)" using un unfolding u_def by (simp add: last_rev)
  have "u = takeWhile is_space u @ strip s" unfolding st by simp
  then have "last u = last (strip s)" using assms by (metis last_appendR)
  then show "\<not> is_space (last (strip s))" using lu by simp
qed

lemma strip_id:
  assumes "s \<noteq> []" "\<not> is_space (hd s)" "\<not> is_space (last s)"
  shows "strip s = s"
proof -
  have "\<not> is_space (hd (rev s))" using assms(1,3) by (simp add: hd_rev)
  then have "dropWhile is_space (rev s) = rev s" using assms(1) by (cases "rev s") auto
  moreover have "dropWhile is_space s = s" using assms(1,2) by (cases s) auto
  ultimately show ?thesis by (simp add: strip_def)
qed

lemma strip_all_space:
  assumes "\<forall>c\<in>set s. is_space c"
  shows "strip s = []"
proof -
  have h: "dropWhile is_space (rev s) = []"
    using assms dropWhile_all_append[of "rev s" is_space "[]"] by simp
  show ?thesis unfolding strip_def h by simp
qed

lemma strip_surround:
  assumes "\<forall>c\<in>set l. is_space c" "\<forall>c\<in>set r. is_space c" "s \<noteq> []" "\<not> is_space (hd s)" "\<not> is_space (last s)"
  shows "strip (l @ s @ r) = s"
proof -
  have "\<not> is_space (hd (rev s))" using assms(3,5) by (simp add: hd_rev)
  then have a: "dropWhile is_space (rev s @ rev l) = rev s @ rev l" using assms(3) by (cases "rev s") auto
  have "dropWhile is_space (rev (l @ s @ r)) = dropWhile is_space (rev s @ rev l)"
    using assms(2) dropWhile_all_append[of "rev r" is_space "rev s @ rev l"] by simp
  then have "rev (dropWhile is_space (rev (l @ s @ r))) = l @ s" using a by simp
  moreover have "dropWhile is_space (l @ s) = s"
    using assms(1,3,4) dropWhile_all_append[of l is_space s] by (cases s) auto
  ultimately show ?thesis by (simp add: strip_def)
qed

lemma match_leading_shape:
  assumes "(g1, g2) \<in> set (match_leading s)"
  shows "\<exists>w r. s = g1 @ w @ g2 @ r \<and> g1 \<noteq> [] \<and> (\<forall>c\<in>set g1. is_numch c) \<and>
           w \<noteq> [] \<and> (\<forall>c\<in>set w. is_space c) \<and> g2 \<noteq> [] \<and> (\<forall>c\<in>set g2. not_nl c)"
proof -
  from assms obtain r1 w r2 r3 where
    a: "(g1, r1) \<in> set (greedy_plus is_numch s)" and
    b: "(w, r2) \<in> set (greedy_plus is_space r1)" and
    c: "(g2, r3) \<in> set (greedy_plus not_nl r2)"
    by (auto simp: match_leading_def)
  show ?thesis
    using greedy_plus_shape[OF a] greedy_plus_shape[OF b] greedy_plus_shape[OF c] by auto
qed

lemma search_leading_shape:
  assumes "search_leading s = Some (g1, g2)"
  shows "\<exists>w r. s = g1 @ w @ g2 @ r \<and> g1 \<noteq> [] \<and> (\<forall>c\<in>set g1. is_numch c) \<and>
           w \<noteq> [] \<and> (\<forall>c\<in>set w. is_space c) \<and> g2 \<noteq> [] \<and> (\<forall>c\<in>set g2. not_nl c)"
proof -
  from assms have "(g1, g2) \<in> set (match_leading s)"
    by (auto simp: search_leading_def split: list.splits)
  then show ?thesis by (rule match_leading_shape)
qed

lemma search_leading_none:
  assumes "\<forall>c\<in>set s. \<not> is_space c"
  shows "search_leading s = None"
proof (rule ccontr)
  assume "search_leading s \<noteq> None"
  then obtain g1 g2 where "search_leading s = Some (g1, g2)" by auto
  from search_leading_shape[OF this] obtain w r where "s = g1 @ w @ g2 @ r" "w \<noteq> []" "\<forall>c\<in>set w. is_space c"
    by blast
  then have "hd w \<in> set s" "is_space (hd w)" by auto
  then show False using assms by blast
qed

lemma tokens_acc_word:
  assumes "\<forall>c\<in>set g. \<not> is_space c" "post = [] \<or> is_space (hd post)" "rev cur @ g \<noteq> []"
  shows "rev cur @ g \<in> set (tokens_acc cur (g @ post))"
  using assms
proof (induction g arbitrary: cur)
  case Nil
  then show ?case by (cases post) auto
next
  case (Cons c g)
  have "rev (c # cur) @ g \<in> set (tokens_acc (c # cur) (g @ post))"
    using Cons.prems by (intro Cons.IH) auto
  then show ?case using Cons.prems(1) by simp
qed

lemma tokens_acc_skip:
  assumes "(pre = [] \<and> cur = []) \<or> (pre \<noteq> [] \<and> is_space (last pre))"
    and "x \<in> set (tokens_acc [] t)"
  shows "x \<in> set (tokens_acc cur (pre @ t))"
  using assms
proof (induction pre arbitrary: cur)
  case Nil
  then show ?case by simp
next
  case (Cons c pre)
  show ?case
  proof (cases "is_space c")
    case True
    have "(pre = [] \<and> ([]::string) = []) \<or> (pre \<noteq> [] \<and> is_space (last pre))"
      using Cons.prems(1) by (cases pre) auto
    from Cons.IH[OF this Cons.prems(2)] show ?thesis using True by simp
  next
    case False
    then have "pre \<noteq> [] \<and> is_space (last pre)" using Cons.prems(1) by (cases pre) auto
    then have "(pre = [] \<and> c # cur = []) \<or> (pre \<noteq> [] \<and> is_space (last pre))" by simp
    from Cons.IH[OF this Cons.prems(2)] show ?thesis using False by simp
  qed
qed

lemma token_in_tokens:
  assumes "g \<noteq> []" "\<forall>c\<in>set g. \<not> is_space c"
    and "pre = [] \<or> is_space (last pre)" "post = [] \<or> is_space (hd post)"
  shows "g \<in> set (tokens (pre @ g @ post))"
proof -
  have "rev [] @ g \<in> set (tokens_acc [] (g @ post))"
    using assms(1,2,4) by (intro tokens_acc_word) auto
  then have "g \<in> set (tokens_acc [] (g @ post))" by simp
  moreover have "(pre = [] \<and> ([]::string) = []) \<or> (pre \<noteq> [] \<and> is_space (last pre))"
    using assms(3) by auto
  ultimately show ?thesis unfolding tokens_def
    using tokens_acc_skip[of pre "[]" g "g @ post"] by simp
qed

section \<open>Facts about \<open>parse_expense\<close>\<close>

lemma float_token_decimal: "decimal_token a \<Longrightarrow> float_token a = Inr (round64 (decimal_value a))"
  by (simp add: float_token_def)

lemma decimal_token_shape:
  assumes "decimal_token a"
  shows "a \<noteq> []" and "\<forall>c\<in>set a. is_numch c"
  using assms by (auto simp: decimal_token_def list_all_iff list_ex_iff)

lemma float_token_0: "float_token ''0'' = Inr (Finite 0)"
proof -
  have "decimal_token ''0''" by code_simp
  moreover have "decimal_value ''0'' = 0"
    by (simp add: decimal_value_def dec_nat_def digit_val_def is_digit_def)
  ultimately show ?thesis by (simp add: float_token_def round64_def)
qed

lemma float_token_5: "float_token ''5'' = Inr (Finite 5)"
proof -
  have "decimal_token ''5''" by code_simp
  moreover have "decimal_value ''5'' = 5"
    by (simp add: decimal_value_def dec_nat_def digit_val_def is_digit_def)
  moreover have "round64 5 = Finite 5" using round64_int[of 5] by simp
  ultimately show ?thesis by (simp add: float_token_def)
qed

lemma parse_expense_trailing:
  assumes "search_trailing (strip text) = Some (g1, g2)"
  shows "parse_expense text =
    (case float_token g2 of Inl e \<Rightarrow> Inl e | Inr amount \<Rightarrow> Inr (Some (strip g1, amount)))"
  using assms by (simp add: parse_expense_def)

lemma strip_text_amount:
  assumes "strip d \<noteq> []" "a \<noteq> []" "\<forall>c\<in>set a. is_numch c"
  shows "\<exists>w. strip (d @ '' '' @ a) = strip d @ w @ a \<and> w \<noteq> [] \<and> (\<forall>c\<in>set w. is_space c)"
proof -
  obtain l r where lr: "d = l @ strip d @ r" "\<forall>c\<in>set l. is_space c" "\<forall>c\<in>set r. is_space c"
    using strip_decomp[of d] by blast
  let ?s = "strip d @ (r @ '' '') @ a"
  have "last ?s = last a" using assms(2) by simp
  then have la: "\<not> is_space (last ?s)" using assms(2,3) numch_not_space by (metis last_in_set)
  have hd: "\<not> is_space (hd ?s)" using strip_ends(1)[OF assms(1)] assms(1) by simp
  have e: "d @ '' '' @ a = l @ ?s @ []" using lr(1) by (metis append.assoc append_Nil2)
  have "strip (d @ '' '' @ a) = strip d @ (r @ '' '') @ a"
    unfolding e using lr(2) hd la assms(1) by (intro strip_surround) auto
  moreover have "\<forall>c\<in>set (r @ '' ''). is_space c" using lr(3) by (auto simp: is_space_def)
  ultimately show ?thesis by blast
qed

lemma parse_expense_none:
  assumes "search_trailing (strip text) = None" "search_leading (strip text) = None"
  shows "parse_expense text = Inr None"
  using assms by (simp add: parse_expense_def)

lemma strip_token:
  assumes "\<forall>c\<in>set l. is_space c" "\<forall>c\<in>set r. is_space c" "\<forall>c\<in>set t. \<not> is_space c"
  shows "strip (l @ t @ r) = t"
proof (cases "t = []")
  case True
  then have "\<forall>c\<in>set (l @ t @ r). is_space c" using assms(1,2) by auto
  then show ?thesis using True strip_all_space by simp
next
  case False
  then have "\<not> is_space (hd t)" "\<not> is_space (last t)" using assms(3) by auto
  then show ?thesis using assms(1,2) False by (intro strip_surround)
qed

lemma trailing_token_in_tokens:
  assumes "search_trailing (strip text) = Some (g1, g2)"
  shows "g2 \<in> set (tokens text) \<and> numeric_token g2"
proof -
  obtain l r where lr: "text = l @ strip text @ r" "\<forall>c\<in>set l. is_space c" "\<forall>c\<in>set r. is_space c"
    using strip_decomp[of "text"] by blast
  obtain pre t where t: "strip text = pre @ t" "(g1, g2) \<in> set (match_trailing t)"
    using search_trailing_shape[OF assms] by blast
  obtain w w' where w: "t = g1 @ w @ g2 @ w'" "w \<noteq> []" "\<forall>c\<in>set w. is_space c" "g2 \<noteq> []"
      "\<forall>c\<in>set g2. is_numch c" "\<forall>c\<in>set w'. is_space c"
    using match_trailing_shape[OF t(2)] by blast
  let ?pre = "l @ pre @ g1 @ w" and ?post = "w' @ r"
  have "strip text = pre @ g1 @ w @ g2 @ w'" using t(1) w(1) by simp
  then have "l @ strip text @ r = ?pre @ g2 @ ?post" by simp
  then have e: "text = ?pre @ g2 @ ?post" using lr(1) by simp
  have "last ?pre = last w" using w(2) by simp
  then have p: "?pre = [] \<or> is_space (last ?pre)" using w(2,3) by (metis last_in_set)
  have "\<forall>c\<in>set ?post. is_space c" using w(6) lr(3) by auto
  then have q: "?post = [] \<or> is_space (hd ?post)" by (metis hd_in_set)
  have n: "\<forall>c\<in>set g2. \<not> is_space c" using w(5) numch_not_space by blast
  have "g2 \<in> set (tokens (?pre @ g2 @ ?post))" using w(4) n p q by (rule token_in_tokens)
  then show ?thesis using e w(5) by (simp add: numeric_token_def list_all_iff)
qed

lemma leading_token_in_tokens:
  assumes "search_leading (strip text) = Some (g1, g2)"
  shows "g1 \<in> set (tokens text) \<and> numeric_token g1"
proof -
  obtain l r where lr: "text = l @ strip text @ r" "\<forall>c\<in>set l. is_space c" "\<forall>c\<in>set r. is_space c"
    using strip_decomp[of "text"] by blast
  obtain w r' where w: "strip text = g1 @ w @ g2 @ r'" "g1 \<noteq> []" "\<forall>c\<in>set g1. is_numch c"
      "w \<noteq> []" "\<forall>c\<in>set w. is_space c"
    using search_leading_shape[OF assms] by blast
  let ?post = "w @ g2 @ r' @ r"
  have "l @ strip text @ r = l @ g1 @ ?post" using w(1) by simp
  then have e: "text = l @ g1 @ ?post" using lr(1) by simp
  have p: "l = [] \<or> is_space (last l)" using lr(2) by (metis last_in_set)
  have "hd ?post = hd w" using w(4) by simp
  then have q: "?post = [] \<or> is_space (hd ?post)" using w(4,5) by (metis hd_in_set)
  have n: "\<forall>c\<in>set g1. \<not> is_space c" using w(3) numch_not_space by blast
  have "g1 \<in> set (tokens (l @ g1 @ ?post))" using w(2) n p q by (rule token_in_tokens)
  then show ?thesis using e w(3) by (simp add: numeric_token_def list_all_iff)
qed

section \<open>Facts about the summary\<close>

lemma filter_period_acc:
  "filter_period strptime today period acc records =
     acc @ filter (\<lambda>r. case strptime (Date r) of Inl e \<Rightarrow> False | Inr d \<Rightarrow> keep_rule period today d) records"
proof (induction records arbitrary: acc)
  case Nil
  then show ?case by simp
next
  case (Cons r records)
  show ?case
  proof (cases "strptime (Date r)")
    case (Inl e)
    then show ?thesis by (simp add: Cons.IH)
  next
    case (Inr d)
    then show ?thesis by (auto simp: Cons.IH keep_rule_def)
  qed
qed

lemma totals_Nil: "totals to_float st [] = st"
  by (cases st) simp

lemma totals_append:
  "totals to_float st (xs @ ys) = totals to_float (totals to_float st xs) ys"
proof (induction xs arbitrary: st)
  case Nil
  then show ?case by (simp add: totals_Nil)
next
  case (Cons r xs)
  obtain ct t where st: "st = (ct, t)" by (cases st)
  show ?case unfolding st by (cases "to_float (Amount r)") (simp_all add: Cons.IH)
qed

lemma totals_skip:
  assumes "to_float (Amount r) = Inl e"
  shows "totals to_float st (r # rs) = totals to_float st rs"
proof -
  obtain ct t where st: "st = (ct, t)" by (cases st)
  show ?thesis unfolding st using assms by simp
qed

lemma round64_numeral:
  "(numeral k :: int) < 2 ^ 53 \<Longrightarrow> round64 (numeral k) = Finite (numeral k)"
  using round64_int[of "numeral k"] by simp










lemma float_token_10: "float_token ''10'' = Inr (Finite 10)"
proof -
  have "decimal_token ''10''" by code_simp
  moreover have "decimal_value ''10'' = 10"
    by (simp add: decimal_value_def dec_nat_def digit_val_def is_digit_def)
  ultimately show ?thesis by (simp add: float_token_def round64_numeral)
qed

lemma float_token_abc: "float_token ''abc'' = Inl ValueError"
  by code_simp


lemma strptime_2024_06_01: "strptime_ymd ''2024-06-01'' = Inr 739038" by code_simp

lemma strptime_2024_06_02: "strptime_ymd ''2024-06-02'' = Inr 739039" by code_simp

lemma strptime_2024_05_30: "strptime_ymd ''2024-05-30'' = Inr 739036" by code_simp

lemma strptime_2024_05_25: "strptime_ymd ''2024-05-25'' = Inr 739031" by code_simp

lemma strptime_2024_05_01: "strptime_ymd ''2024-05-01'' = Inr 739007" by code_simp

lemma strptime_yesterday: "strptime_ymd ''yesterday'' = Inl ValueError" by code_simp

section \<open>The claims\<close>

subsection \<open>C1: a numeric token that does not convert\<close>

text \<open>
  C1. The claim: a text whose numeric token stands in trailing or leading position but
  does not convert (more than one decimal point, as in "Coffee 1.2.3" and
  "1.2.3 Coffee") makes \<open>parse_expense\<close> return the failure pair rather than raise.
  The code converts the token with \<open>float\<close> outside any handler: on both texts the call
  raises ValueError, which leaves \<open>parse_expense\<close> instead of the pair \<open>(None, None)\<close>.
\<close>

theorem parse_expense_bad_token_raises:
  "parse_expense ''Coffee 1.2.3'' = Inl ValueError \<and>
   parse_expense ''1.2.3 Coffee'' = Inl ValueError \<and>
   parse_expense ''Coffee 1.2.3'' \<noteq> Inr None \<and>
   parse_expense ''1.2.3 Coffee'' \<noteq> Inr None"
  by code_simp

subsection \<open>C2: the category fallback\<close>

text \<open>
  C2, as amended. For every description: when the collaborator raises,
  \<open>categorize_expense\<close> returns the label "Other"; when it yields a text, the function
  returns that text with the surrounding whitespace removed, whatever it is (it may be
  empty, and it need not belong to any vocabulary).
\<close>

theorem categorize_expense_fallback:
  "(generate (prompt description) = Inl e \<longrightarrow> categorize_expense generate description = ''Other'') \<and>
   (generate (prompt description) = Inr reply \<longrightarrow>
      categorize_expense generate description = strip reply)"
  by (simp add: categorize_expense_def)

theorem categorize_expense_fallback_witness:
  "unavailable (prompt ''Lunch'') = Inl APIError \<and>
   categorize_expense unavailable ''Lunch'' = ''Other'' \<and>
   reply_with '' Food '' (prompt ''Lunch'') = Inr '' Food '' \<and>
   categorize_expense (reply_with '' Food '') ''Lunch'' = ''Food''"
proof -
  have a: "unavailable (prompt ''Lunch'') = Inl APIError" by (simp add: unavailable_def)
  have b: "reply_with '' Food '' (prompt ''Lunch'') = Inr '' Food ''" by (simp add: reply_with_def)
  have s: "strip '' Food '' = ''Food''" by code_simp
  show ?thesis
    using categorize_expense_fallback[of unavailable "''Lunch''" APIError "[]"]
      categorize_expense_fallback[of "reply_with '' Food ''" "''Lunch''" APIError "'' Food ''"]
      a b s by simp
qed

text \<open>
  The claim as first stated promised the label "Other" for an empty reply and the reply
  unchanged otherwise. An empty reply is returned as the empty text, and a reply padded
  with spaces is returned without them.
\<close>

theorem categorize_expense_empty_counterexample:
  "categorize_expense (reply_with []) ''Lunch'' = [] \<and>
   categorize_expense (reply_with []) ''Lunch'' \<noteq> ''Other'' \<and>
   categorize_expense (reply_with '' Food '') ''Lunch'' = ''Food'' \<and>
   categorize_expense (reply_with '' Food '') ''Lunch'' \<noteq> '' Food ''"
proof -
  have e: "strip [] = []" by (simp add: strip_def)
  have s: "strip '' Food '' = ''Food''" by code_simp
  show ?thesis by (simp add: categorize_expense_def reply_with_def e s)
qed

subsection \<open>C3: which rows a window retains\<close>

text \<open>
  C3. The first loop of \<open>get_summary\<close> keeps exactly the rows whose date converts and
  satisfies the window rule, in their order: the date equals today for the period
  "today", today minus the date is at most 7 days for "week", and at most 30 days for
  "month". The rule does not ask for the date to be at most today, so for the week and
  the month a row dated after today is kept.
\<close>

theorem filter_period_window:
  "filter_period strptime today period [] records =
     filter (\<lambda>r. case strptime (Date r) of Inl e \<Rightarrow> False | Inr d \<Rightarrow> keep_rule period today d) records \<and>
   get_summary strptime to_float (Inr (Some (Inr records))) today period =
     totals to_float ([], Finite 0)
       (filter (\<lambda>r. case strptime (Date r) of Inl e \<Rightarrow> False | Inr d \<Rightarrow> keep_rule period today d) records) \<and>
   (today < d \<and> (period = ''week'' \<or> period = ''month'') \<longrightarrow> keep_rule period today d)"
  by (auto simp: get_summary_def filter_period_acc keep_rule_def)

theorem filter_period_window_witness:
  "(739038::int) < 739039 \<and> keep_rule ''week'' 739038 739039 \<and>
   filter_period strptime_ymd 739038 ''week'' []
     [\<lparr>Date = ''2024-06-02'', Amount = ''1'', Category = ''A''\<rparr>,
      \<lparr>Date = ''2024-05-01'', Amount = ''1'', Category = ''B''\<rparr>,
      \<lparr>Date = ''2024-05-25'', Amount = ''1'', Category = ''C''\<rparr>,
      \<lparr>Date = ''yesterday'', Amount = ''1'', Category = ''D''\<rparr>] =
     [\<lparr>Date = ''2024-06-02'', Amount = ''1'', Category = ''A''\<rparr>,
      \<lparr>Date = ''2024-05-25'', Amount = ''1'', Category = ''C''\<rparr>]"
  using filter_period_window[where strptime = strptime_ymd and today = 739038
      and period = "''week''" and d = 739039 and to_float = float_token and records =
      "[\<lparr>Date = ''2024-06-02'', Amount = ''1'', Category = ''A''\<rparr>,
        \<lparr>Date = ''2024-05-01'', Amount = ''1'', Category = ''B''\<rparr>,
        \<lparr>Date = ''2024-05-25'', Amount = ''1'', Category = ''C''\<rparr>,
        \<lparr>Date = ''yesterday'', Amount = ''1'', Category = ''D''\<rparr>]"]
  by (simp add: strptime_2024_06_02 strptime_2024_05_01 strptime_2024_05_25 strptime_yesterday
      keep_rule_def)

subsection \<open>C4: malformed rows are passed over\<close>

text \<open>
  C4. A row whose date does not convert, or whose amount does not convert, contributes
  nothing: the summary of the rows with that row among them is the summary of the rows
  without it, category totals and grand total alike. The summary is a value in every
  case; no failure of a conversion leaves \<open>get_summary\<close>.
\<close>

theorem get_summary_skips_malformed:
  assumes "(\<exists>e. strptime (Date bad) = Inl e) \<or> (\<exists>e. to_float (Amount bad) = Inl e)"
  shows "get_summary strptime to_float (Inr (Some (Inr (before @ [bad] @ after)))) today period =
         get_summary strptime to_float (Inr (Some (Inr (before @ after)))) today period"
proof -
  define P where "P = (\<lambda>r::row. case strptime (Date r) of Inl e \<Rightarrow> False | Inr d \<Rightarrow> keep_rule period today d)"
  define st where "st = totals to_float ([], Finite 0) (filter P before)"
  have fp: "\<And>records. filter_period strptime today period [] records = filter P records"
    unfolding P_def by (simp add: filter_period_acc)
  have "totals to_float st (filter P [bad]) = st"
  proof (cases "P bad")
    case False
    then show ?thesis by (simp add: totals_Nil)
  next
    case True
    then have "\<not> (\<exists>e. strptime (Date bad) = Inl e)" unfolding P_def by (auto split: sum.splits)
    then obtain e where "to_float (Amount bad) = Inl e" using assms by blast
    then show ?thesis using True totals_skip[of to_float bad e st "[]"] by (simp add: totals_Nil)
  qed
  then have "totals to_float ([], Finite 0) (filter P (before @ [bad] @ after)) =
             totals to_float ([], Finite 0) (filter P (before @ after))"
    unfolding filter_append totals_append st_def[symmetric] by simp
  then show ?thesis unfolding get_summary_def fp by simp
qed

theorem get_summary_skips_malformed_witness:
  "((\<exists>e. strptime_ymd (Date \<lparr>Date = ''2024-06-01'', Amount = ''abc'', Category = ''Food''\<rparr>) = Inl e) \<or>
    (\<exists>e. float_token (Amount \<lparr>Date = ''2024-06-01'', Amount = ''abc'', Category = ''Food''\<rparr>) = Inl e)) \<and>
   get_summary strptime_ymd float_token
     (Inr (Some (Inr ([\<lparr>Date = ''2024-06-01'', Amount = ''10'', Category = ''Food''\<rparr>] @
                      [\<lparr>Date = ''2024-06-01'', Amount = ''abc'', Category = ''Food''\<rparr>] @
                      [\<lparr>Date = ''2024-05-30'', Amount = ''5'', Category = ''Food''\<rparr>]))))
     739038 ''today'' =
   get_summary strptime_ymd float_token
     (Inr (Some (Inr ([\<lparr>Date = ''2024-06-01'', Amount = ''10'', Category = ''Food''\<rparr>] @
                      [\<lparr>Date = ''2024-05-30'', Amount = ''5'', Category = ''Food''\<rparr>]))))
     739038 ''today'' \<and>
   get_summary strptime_ymd float_token
     (Inr (Some (Inr ([\<lparr>Date = ''2024-06-01'', Amount = ''10'', Category = ''Food''\<rparr>] @
                      [\<lparr>Date = ''2024-05-30'', Amount = ''5'', Category = ''Food''\<rparr>]))))
     739038 ''today'' = ([(''Food'', Finite 10)], Finite 10)"
proof -
  have h: "(\<exists>e. strptime_ymd (Date \<lparr>Date = ''2024-06-01'', Amount = ''abc'', Category = ''Food''\<rparr>) = Inl e) \<or>
    (\<exists>e. float_token (Amount \<lparr>Date = ''2024-06-01'', Amount = ''abc'', Category = ''Food''\<rparr>) = Inl e)"
    by (simp add: float_token_abc)
  have v: "get_summary strptime_ymd float_token
     (Inr (Some (Inr ([\<lparr>Date = ''2024-06-01'', Amount = ''10'', Category = ''Food''\<rparr>] @
                      [\<lparr>Date = ''2024-05-30'', Amount = ''5'', Category = ''Food''\<rparr>]))))
     739038 ''today'' = ([(''Food'', Finite 10)], Finite 10)"
    by (simp add: get_summary_def strptime_2024_06_01 strptime_2024_05_30 float_token_10
        round64_numeral)
  show ?thesis
    using get_summary_skips_malformed[where strptime = strptime_ymd and to_float = float_token
        and bad = "\<lparr>Date = ''2024-06-01'', Amount = ''abc'', Category = ''Food''\<rparr>"
        and before = "[\<lparr>Date = ''2024-06-01'', Amount = ''10'', Category = ''Food''\<rparr>]"
        and after = "[\<lparr>Date = ''2024-05-30'', Amount = ''5'', Category = ''Food''\<rparr>]"
        and today = 739038 and period = "''today''"] h v
    by blast
qed

subsection \<open>C5: description and amount of the trailing form\<close>

text \<open>
  C5, as amended. For every text made of a description, a space and an amount, where the
  trimmed description is not empty and holds no line feed, and the amount is a decimal
  token (digits with an optional single decimal point): \<open>parse_expense\<close> returns the
  trimmed description and, as amount, the float that the token converts to, which is the
  token's decimal value rounded to the nearest binary64 number.
\<close>

theorem parse_expense_trailing_amount:
  assumes "strip d \<noteq> []" and "list_all not_nl (strip d)" and "decimal_token a"
  shows "parse_expense (d @ '' '' @ a) = Inr (Some (strip d, round64 (decimal_value a)))"
proof -
  have nl: "\<forall>c\<in>set (strip d). not_nl c" using assms(2) by (simp add: list_all_iff)
  have a: "a \<noteq> []" "\<forall>c\<in>set a. is_numch c" using decimal_token_shape[OF assms(3)] by auto
  obtain w where w: "strip (d @ '' '' @ a) = strip d @ w @ a" "w \<noteq> []" "\<forall>c\<in>set w. is_space c"
    using strip_text_amount[OF assms(1) a] by blast
  obtain ms where "match_trailing (strip d @ w @ a) = (strip d, a) # ms"
    using match_trailing_first[OF assms(1) nl strip_ends(2)[OF assms(1)] w(2,3) a] by blast
  then have "search_trailing (strip (d @ '' '' @ a)) = Some (strip d, a)"
    unfolding w(1) by (rule search_trailing_first)
  from parse_expense_trailing[OF this]
  have "parse_expense (d @ '' '' @ a) = Inr (Some (strip (strip d), round64 (decimal_value a)))"
    by (simp add: float_token_decimal[OF assms(3)])
  moreover have "strip (strip d) = strip d"
    using assms(1) strip_ends[OF assms(1)] by (intro strip_id)
  ultimately show ?thesis by simp
qed

theorem parse_expense_trailing_amount_witness:
  "strip ''Lunch'' \<noteq> [] \<and> list_all not_nl (strip ''Lunch'') \<and> decimal_token ''15.50'' \<and>
   parse_expense ''Lunch 15.50'' = Inr (Some (''Lunch'', Finite (31 / 2)))"
proof -
  have s: "strip ''Lunch'' = ''Lunch''" by code_simp
  have h1: "strip ''Lunch'' \<noteq> []" unfolding s by simp
  have h2: "list_all not_nl (strip ''Lunch'')" unfolding s by (simp add: not_nl_def)
  have h3: "decimal_token ''15.50''" by code_simp
  have v: "decimal_value ''15.50'' = 31 / 2"
    by (simp add: decimal_value_def dec_nat_def digit_val_def is_digit_def)
  have r: "round64 (31 / 2) = Finite (31 / 2)"
    using round64_exact[of "31 / 2" 31 "- 1"] by simp
  show ?thesis
    using parse_expense_trailing_amount[OF h1 h2 h3] h1 h2 h3 by (simp add: s v r)
qed

text \<open>
  The claim as first stated covered every non-empty description. The pattern \<open>.\<close> does
  not match a line feed, in the trailing pattern and in the leading one alike, so a
  description of several lines is cut to its last line: for the description "a", line
  feed, "b" and the amount 5 the function returns the description "b".
\<close>

theorem parse_expense_newline_counterexample:
  "parse_expense ((''a'' @ [CHR 0x0A] @ ''b'') @ '' '' @ ''5'') = Inr (Some (''b'', Finite 5)) \<and>
   strip (''a'' @ [CHR 0x0A] @ ''b'') = ''a'' @ [CHR 0x0A] @ ''b'' \<and>
   parse_expense ((''a'' @ [CHR 0x0A] @ ''b'') @ '' '' @ ''5'') \<noteq>
     Inr (Some (strip (''a'' @ [CHR 0x0A] @ ''b''), Finite 5))"
proof -
  have t: "search_trailing (strip ((''a'' @ [CHR 0x0A] @ ''b'') @ '' '' @ ''5'')) = Some (''b'', ''5'')"
    by code_simp
  have s: "strip ''b'' = ''b''" by code_simp
  have s2: "strip [CHR ''a'', CHR 0x0A, CHR ''b''] = [CHR ''a'', CHR 0x0A, CHR ''b'']" by code_simp
  show ?thesis using parse_expense_trailing[OF t] by (simp add: float_token_5 s s2)
qed

subsection \<open>C6: the trailing form is tried first\<close>

text \<open>
  C6. Whenever the trailing pattern and the leading pattern both match the trimmed text,
  the outcome of \<open>parse_expense\<close> is the one the trailing match determines: group 1
  trimmed is the description and group 2 converted is the amount. Both patterns match
  "5 5", and the result there is the description "5" with the amount 5.
\<close>

theorem parse_expense_trailing_first:
  "(search_trailing (strip text) = Some (g1, g2) \<and> search_leading (strip text) = Some (h1, h2) \<longrightarrow>
      parse_expense text =
        (case float_token g2 of Inl e \<Rightarrow> Inl e | Inr amount \<Rightarrow> Inr (Some (strip g1, amount)))) \<and>
   search_trailing (strip ''5 5'') = Some (''5'', ''5'') \<and>
   search_leading (strip ''5 5'') = Some (''5'', ''5'') \<and>
   parse_expense ''5 5'' = Inr (Some (''5'', Finite 5))"
proof -
  have t: "search_trailing (strip ''5 5'') = Some (''5'', ''5'')" by code_simp
  have l: "search_leading (strip ''5 5'') = Some (''5'', ''5'')" by code_simp
  have s: "strip ''5'' = ''5''" by code_simp
  have "parse_expense ''5 5'' = Inr (Some (''5'', Finite 5))"
    using parse_expense_trailing[OF t] by (simp add: float_token_5 s)
  then show ?thesis using t l parse_expense_trailing by blast
qed

theorem parse_expense_trailing_first_witness:
  "search_trailing (strip ''1 2'') = Some (''1'', ''2'') \<and>
   search_leading (strip ''1 2'') = Some (''1'', ''2'') \<and>
   parse_expense ''1 2'' = (case float_token ''2'' of Inl e \<Rightarrow> Inl e | Inr amount \<Rightarrow> Inr (Some (strip ''1'', amount)))"
proof -
  have t: "search_trailing (strip ''1 2'') = Some (''1'', ''2'')" by code_simp
  have l: "search_leading (strip ''1 2'') = Some (''1'', ''2'')" by code_simp
  show ?thesis
    using parse_expense_trailing_first[of "''1 2''" "''1''" "''2''" "''1''" "''2''"] t l by simp
qed

subsection \<open>C7: texts without description or without numeric token\<close>

text \<open>
  C7. A text that is a single numeric token, with or without whitespace around it, makes
  \<open>parse_expense\<close> return the failure pair; so does every text none of whose
  whitespace-separated tokens is numeric, such as the empty text and "hello". A numeric
  token is a token made of the characters the pattern's class \<open>[\d.]\<close> accepts.
\<close>

theorem parse_expense_failed:
  "(list_all is_space l \<and> numeric_token t \<and> list_all is_space r \<longrightarrow>
      parse_expense (l @ t @ r) = Inr None) \<and>
   (\<not> list_ex numeric_token (tokens text) \<longrightarrow> parse_expense text = Inr None)"
proof (intro conjI impI)
  assume a: "list_all is_space l \<and> numeric_token t \<and> list_all is_space r"
  then have n: "\<forall>c\<in>set t. \<not> is_space c"
    using numch_not_space by (auto simp: numeric_token_def list_all_iff)
  have "strip (l @ t @ r) = t" using a n by (intro strip_token) (auto simp: list_all_iff)
  then show "parse_expense (l @ t @ r) = Inr None"
    using search_trailing_none[OF n] search_leading_none[OF n] by (intro parse_expense_none) simp_all
next
  assume a: "\<not> list_ex numeric_token (tokens text)"
  have "search_trailing (strip text) = None"
  proof (rule ccontr)
    assume "search_trailing (strip text) \<noteq> None"
    then obtain g1 g2 where "search_trailing (strip text) = Some (g1, g2)" by auto
    from trailing_token_in_tokens[OF this] show False using a by (auto simp: list_ex_iff)
  qed
  moreover have "search_leading (strip text) = None"
  proof (rule ccontr)
    assume "search_leading (strip text) \<noteq> None"
    then obtain g1 g2 where "search_leading (strip text) = Some (g1, g2)" by auto
    from leading_token_in_tokens[OF this] show False using a by (auto simp: list_ex_iff)
  qed
  ultimately show "parse_expense text = Inr None" by (rule parse_expense_none)
qed

theorem parse_expense_failed_witness:
  "list_all is_space [] \<and> numeric_token ''12'' \<and> list_all is_space [] \<and>
   parse_expense ''12'' = Inr None \<and>
   \<not> list_ex numeric_token (tokens ''hello'') \<and> parse_expense ''hello'' = Inr None \<and>
   \<not> list_ex numeric_token (tokens []) \<and> parse_expense [] = Inr None"
proof -
  have n: "numeric_token ''12''" by code_simp
  have h: "\<not> list_ex numeric_token (tokens ''hello'')" by code_simp
  have e: "\<not> list_ex numeric_token (tokens [])" by code_simp
  show ?thesis
    using parse_expense_failed[of "[]" "''12''" "[]" "''hello''"]
      parse_expense_failed[of "[]" "''12''" "[]" "[]"] n h e by simp
qed

subsection \<open>C8: a failed read of the ledger\<close>

text \<open>
  C8. When the ledger cannot be read, because obtaining the worksheet raises, because no
  worksheet is obtained, or because reading its records raises, \<open>get_summary\<close> returns
  no category and the total 0, which is also its result for a ledger without rows. The
  failure is absorbed: the result is a value in each case.
\<close>

theorem get_summary_read_failure:
  "get_summary strptime to_float (Inl e) today period = ([], Finite 0) \<and>
   get_summary strptime to_float (Inr None) today period = ([], Finite 0) \<and>
   get_summary strptime to_float (Inr (Some (Inl e))) today period = ([], Finite 0) \<and>
   get_summary strptime to_float (Inr (Some (Inr []))) today period = ([], Finite 0)"
  by (simp add: get_summary_def)

subsection \<open>C9: the grand total and the category totals\<close>




subsection \<open>C10: an amount of zero\<close>

text \<open>
  C10. For every text made of a description that is not empty after trimming, a space
  and the token 0, \<open>parse_expense\<close> returns a description with the amount 0, not the
  failure pair; the test of the webhook on that result, \<open>if description and amount\<close>,
  is false, as a float 0 is.
\<close>

theorem parse_expense_zero_amount:
  assumes "strip d \<noteq> []"
  shows "\<exists>description. parse_expense (d @ '' 0'') = Inr (Some (description, Finite 0)) \<and>
           \<not> understood (Some (description, Finite 0))"
proof -
  have z: "''0'' \<noteq> []" "\<forall>c\<in>set ''0''. is_numch c" by (simp_all add: is_numch_def is_digit_def)
  obtain w where w: "strip (d @ '' '' @ ''0'') = strip d @ w @ ''0''" "w \<noteq> []" "\<forall>c\<in>set w. is_space c"
    using strip_text_amount[OF assms z] by blast
  define c where "c = last (strip d)"
  have sd: "strip d = butlast (strip d) @ [c]" unfolding c_def using assms by simp
  have nc: "\<not> is_space c" unfolding c_def using strip_ends(2)[OF assms] .
  have "\<exists>ms. match_trailing ([c] @ w @ ''0'') = ([c], ''0'') # ms"
    using nc not_space_not_nl w(2,3) z by (intro match_trailing_first) auto
  then have "match_trailing ([c] @ w @ ''0'') \<noteq> []" by auto
  then have "search_trailing (butlast (strip d) @ [c] @ w @ ''0'') \<noteq> None"
    by (rule search_trailing_exists)
  moreover have "strip (d @ '' 0'') = butlast (strip d) @ [c] @ w @ ''0''"
    using w(1) sd by (metis append.assoc append_Cons append_Nil)
  ultimately obtain g1 g2 where g: "search_trailing (strip (d @ '' 0'')) = Some (g1, g2)"
    by auto
  obtain pre t where t: "strip (d @ '' 0'') = pre @ t" "(g1, g2) \<in> set (match_trailing t)"
    using search_trailing_shape[OF g] by blast
  obtain v v' where v: "t = g1 @ v @ g2 @ v'" "v \<noteq> []" "\<forall>c\<in>set v. is_space c" "g2 \<noteq> []"
      "\<forall>c\<in>set g2. is_numch c" "\<forall>c\<in>set v'. is_space c"
    using match_trailing_shape[OF t(2)] by blast
  have "strip (d @ '' 0'') = strip d @ w @ ''0'' @ []" using w(1) by simp
  then have "strip d @ w @ ''0'' @ [] = (pre @ g1) @ v @ g2 @ v'" using t(1) v(1) by simp
  from shape_unique[OF this w(2,3) z _ v(2-6)] have "g2 = ''0''" by simp
  then have "parse_expense (d @ '' 0'') = Inr (Some (strip g1, Finite 0))"
    using parse_expense_trailing[OF g] by (simp add: float_token_0)
  moreover have "\<not> understood (Some (strip g1, Finite 0))"
    by (simp add: understood_def is_true_def)
  ultimately show ?thesis by blast
qed

theorem parse_expense_zero_amount_witness:
  "strip ''Coffee'' \<noteq> [] \<and>
   (\<exists>description. parse_expense ''Coffee 0'' = Inr (Some (description, Finite 0)) \<and>
      \<not> understood (Some (description, Finite 0)))"
proof -
  have s: "strip ''Coffee'' = ''Coffee''" by code_simp
  have h: "strip ''Coffee'' \<noteq> []" unfolding s by simp
  show ?thesis using parse_expense_zero_amount[OF h] h by simp
qed

end
